theory Spec2Isabelle
  imports Main "HOL-Library.Word"
begin

section \<open>Values and the primitives of package sync\<close>

text \<open>
  The program of \<^verbatim>\<open>main.go\<close> has no input: what varies between two invocations of one of
  its functions is only the order in which the scheduler runs the goroutines. Every function
  is therefore modelled as a small transition system: a record of the shared variables and of
  the position of each goroutine in its code, a step function per goroutine, and the run of a
  schedule, which is the list of the goroutines the scheduler picks, in order. The steps of
  the goroutines are interleaved and each one is atomic.

  Go's \<^verbatim>\<open>int\<close> is taken at 64 bits. No arithmetic is done on it by the program.
\<close>

type_synonym go_int = "64 word"

text \<open>
  What one step of a goroutine can do: go on with a new state, block (no step of it is
  enabled now: it waits, or it has finished), or crash the program with a fatal error of the
  runtime.
\<close>

datatype 'a outcome = Proceeds 'a | Blocks | Crashes

text \<open>Going on with the next step, unless this one blocked or crashed.\<close>

definition and_then :: "'a outcome \<Rightarrow> ('a \<Rightarrow> 'b outcome) \<Rightarrow> 'b outcome" where
  "and_then x f = (case x of Proceeds a \<Rightarrow> f a | Blocks \<Rightarrow> Blocks | Crashes \<Rightarrow> Crashes)"

subsection \<open>sync.Mutex\<close>

text \<open>
  A mutex is locked or not. \<^verbatim>\<open>Lock\<close> "blocks if it is already locked" (main.go, line 84);
  \<^verbatim>\<open>Unlock\<close> of a mutex that is not locked is a fatal error of the Go runtime.
\<close>

type_synonym mutex = bool

definition mutex_Lock :: "mutex \<Rightarrow> mutex outcome" where
  "mutex_Lock l = (if l then Blocks else Proceeds True)"

definition mutex_Unlock :: "mutex \<Rightarrow> mutex outcome" where
  "mutex_Unlock l = (if l then Proceeds False else Crashes)"

subsection \<open>sync.WaitGroup\<close>

text \<open>
  A wait group is its counter. \<^verbatim>\<open>Add\<close> adds a delta and panics when the counter becomes
  negative, \<^verbatim>\<open>Done\<close> is \<^verbatim>\<open>Add(-1)\<close>, and \<^verbatim>\<open>Wait\<close> blocks until the counter is zero.
\<close>

type_synonym waitgroup = int

definition wg_Add :: "int \<Rightarrow> waitgroup \<Rightarrow> waitgroup outcome" where
  "wg_Add delta n = (if n + delta < 0 then Crashes else Proceeds (n + delta))"

definition wg_Done :: "waitgroup \<Rightarrow> waitgroup outcome" where
  "wg_Done n = wg_Add (- 1) n"

definition wg_Wait :: "waitgroup \<Rightarrow> unit outcome" where
  "wg_Wait n = (if n = 0 then Proceeds () else Blocks)"

subsection \<open>Goroutines\<close>

text \<open>
  Each function of the program runs two goroutines: the one that called the function, and the
  one the function spawns with \<^verbatim>\<open>go func() { ... }()\<close>.
\<close>

datatype goroutine = Caller | Task

section \<open>safeNumber and its accessors\<close>

text \<open>
  \<^verbatim>\<open>type safeNumber struct { val int; m sync.Mutex }\<close>. The zero value
  \<^verbatim>\<open>&safeNumber{}\<close> holds 0 and an unlocked mutex.
\<close>

record safeNumber =
  val :: go_int
  m :: mutex

definition new_safeNumber :: safeNumber where
  "new_safeNumber = \<lparr>val = 0, m = False\<rparr>"

text \<open>
  Both accessors have the same shape: \<^verbatim>\<open>i.m.Lock()\<close>, \<^verbatim>\<open>defer i.m.Unlock()\<close>, the body,
  and then the deferred \<^verbatim>\<open>Unlock\<close> on the way out. A call in progress is a position and
  one integer slot: the result of \<^verbatim>\<open>get\<close>, the argument of \<^verbatim>\<open>set\<close>.
\<close>

datatype position = AtLock | AtBody | AtUnlock | AtExit

record call =
  at :: position
  slot :: go_int

text \<open>One step of a call of \<^verbatim>\<open>get\<close> (lines 83 to 91) on the container \<open>i\<close>.\<close>

definition get_step :: "call \<Rightarrow> safeNumber \<Rightarrow> (call \<times> safeNumber) outcome" where
  "get_step c i =
     (case at c of
        AtLock \<Rightarrow>
          and_then (mutex_Lock (m i)) (\<lambda>l. Proceeds (c\<lparr>at := AtBody\<rparr>, i\<lparr>m := l\<rparr>))
      | AtBody \<Rightarrow> Proceeds (c\<lparr>at := AtUnlock, slot := val i\<rparr>, i)
      | AtUnlock \<Rightarrow>
          and_then (mutex_Unlock (m i)) (\<lambda>l. Proceeds (c\<lparr>at := AtExit\<rparr>, i\<lparr>m := l\<rparr>))
      | AtExit \<Rightarrow> Blocks)"

text \<open>One step of a call of \<^verbatim>\<open>set\<close> (lines 93 to 99); the slot holds the argument.\<close>

definition set_step :: "call \<Rightarrow> safeNumber \<Rightarrow> (call \<times> safeNumber) outcome" where
  "set_step c i =
     (case at c of
        AtLock \<Rightarrow>
          and_then (mutex_Lock (m i)) (\<lambda>l. Proceeds (c\<lparr>at := AtBody\<rparr>, i\<lparr>m := l\<rparr>))
      | AtBody \<Rightarrow> Proceeds (c\<lparr>at := AtUnlock\<rparr>, i\<lparr>val := slot c\<rparr>)
      | AtUnlock \<Rightarrow>
          and_then (mutex_Unlock (m i)) (\<lambda>l. Proceeds (c\<lparr>at := AtExit\<rparr>, i\<lparr>m := l\<rparr>))
      | AtExit \<Rightarrow> Blocks)"

text \<open>
  A call that no other goroutine interleaves with is its three steps in a row. It blocks
  for ever when the mutex is held, since nobody is there to release it.
\<close>

definition enter :: "go_int \<Rightarrow> call" where
  "enter v = \<lparr>at = AtLock, slot = v\<rparr>"

definition get :: "safeNumber \<Rightarrow> (go_int \<times> safeNumber) outcome" where
  "get i =
     and_then (get_step (enter 0) i) (\<lambda>(c1, i1).
     and_then (get_step c1 i1) (\<lambda>(c2, i2).
     and_then (get_step c2 i2) (\<lambda>(c3, i3). Proceeds (slot c3, i3))))"

definition set_sn :: "safeNumber \<Rightarrow> go_int \<Rightarrow> safeNumber outcome" where
  "set_sn i v =
     and_then (set_step (enter v) i) (\<lambda>(c1, i1).
     and_then (set_step c1 i1) (\<lambda>(c2, i2).
     and_then (set_step c2 i2) (\<lambda>(c3, i3). Proceeds i3)))"

section \<open>Schedules\<close>

text \<open>
  A function's state while it runs, or the crash of the program. A schedule is the list of
  the goroutines the scheduler picks. Picking a goroutine runs one step of it; picking one
  that is blocked or has finished changes nothing, and nothing runs after a crash.
\<close>

datatype 's run = Running 's | Crashed

definition pick :: "(goroutine \<Rightarrow> 's \<Rightarrow> 's outcome) \<Rightarrow> goroutine \<Rightarrow> 's run \<Rightarrow> 's run" where
  "pick step g r =
     (case r of
        Crashed \<Rightarrow> Crashed
      | Running s \<Rightarrow>
          (case step g s of Proceeds t \<Rightarrow> Running t | Blocks \<Rightarrow> Running s | Crashes \<Rightarrow> Crashed))"

definition exec :: "(goroutine \<Rightarrow> 's \<Rightarrow> 's outcome) \<Rightarrow> goroutine list \<Rightarrow> 's \<Rightarrow> 's run" where
  "exec step sched s = foldl (\<lambda>r g. pick step g r) (Running s) sched"

text \<open>A state in which no goroutine has a step: the run is over, or it hangs.\<close>

definition stuck :: "(goroutine \<Rightarrow> 's \<Rightarrow> 's outcome) \<Rightarrow> 's \<Rightarrow> bool" where
  "stuck step s = (step Caller s = Blocks \<and> step Task s = Blocks)"

section \<open>blockingWithWaitgroups\<close>

text \<open>
  Lines 41 to 56. The caller is at \<^verbatim>\<open>wg.Add(1)\<close> (line 46), at the \<^verbatim>\<open>go\<close> statement
  (line 47), at \<^verbatim>\<open>wg.Wait()\<close> (line 54), at \<^verbatim>\<open>return i\<close> (line 55), or has returned a
  value. The spawned function is at \<^verbatim>\<open>i = 5\<close> (line 48), at \<^verbatim>\<open>wg.Done()\<close> (line 50), or
  has finished. The state starts after the declarations of lines 42 and 44, which give
  \<^verbatim>\<open>i\<close> and the counter their zero values.
\<close>

datatype wg_caller = WgAdd | WgGo | WgWait | WgReturn | WgReturned go_int

datatype wg_task = WgUnspawned | WgAssign | WgDone | WgExited

record wg_state =
  wg_i :: go_int
  wg_wg :: waitgroup
  wg_caller :: wg_caller
  wg_task :: wg_task

definition wg_init :: wg_state where
  "wg_init = \<lparr>wg_i = 0, wg_wg = 0, wg_caller = WgAdd, wg_task = WgUnspawned\<rparr>"

definition wg_step :: "goroutine \<Rightarrow> wg_state \<Rightarrow> wg_state outcome" where
  "wg_step g s =
     (case g of
        Caller \<Rightarrow>
          (case wg_caller s of
             WgAdd \<Rightarrow>
               and_then (wg_Add 1 (wg_wg s)) (\<lambda>n. Proceeds (s\<lparr>wg_wg := n, wg_caller := WgGo\<rparr>))
           | WgGo \<Rightarrow> Proceeds (s\<lparr>wg_task := WgAssign, wg_caller := WgWait\<rparr>)
           | WgWait \<Rightarrow>
               and_then (wg_Wait (wg_wg s)) (\<lambda>_. Proceeds (s\<lparr>wg_caller := WgReturn\<rparr>))
           | WgReturn \<Rightarrow> Proceeds (s\<lparr>wg_caller := WgReturned (wg_i s)\<rparr>)
           | WgReturned r \<Rightarrow> Blocks)
      | Task \<Rightarrow>
          (case wg_task s of
             WgUnspawned \<Rightarrow> Blocks
           | WgAssign \<Rightarrow> Proceeds (s\<lparr>wg_i := 5, wg_task := WgDone\<rparr>)
           | WgDone \<Rightarrow>
               and_then (wg_Done (wg_wg s)) (\<lambda>n. Proceeds (s\<lparr>wg_wg := n, wg_task := WgExited\<rparr>))
           | WgExited \<Rightarrow> Blocks))"

definition blockingWithWaitgroups :: "goroutine list \<Rightarrow> wg_state run" where
  "blockingWithWaitgroups sched = exec wg_step sched wg_init"

definition wg_result :: "wg_state run \<Rightarrow> go_int option" where
  "wg_result r =
     (case r of
        Crashed \<Rightarrow> None
      | Running s \<Rightarrow> (case wg_caller s of WgReturned v \<Rightarrow> Some v | _ \<Rightarrow> None))"

text \<open>The number of steps the two goroutines still have to do.\<close>

definition wg_left :: "wg_state \<Rightarrow> nat" where
  "wg_left s =
     (case wg_caller s of WgAdd \<Rightarrow> 4 | WgGo \<Rightarrow> 3 | WgWait \<Rightarrow> 2 | WgReturn \<Rightarrow> 1 | WgReturned r \<Rightarrow> 0)
     + (case wg_task s of WgUnspawned \<Rightarrow> 2 | WgAssign \<Rightarrow> 2 | WgDone \<Rightarrow> 1 | WgExited \<Rightarrow> 0)"

section \<open>blockingWithChannel\<close>

text \<open>
  Lines 58 to 70. The channel \<^verbatim>\<open>done\<close> of line 61 is unbuffered and is never closed: it
  holds nothing, and a send on it completes together with a receive, in one step of both
  goroutines. The state starts after lines 59 and 61. The caller is at the \<^verbatim>\<open>go\<close>
  statement (line 62), at \<^verbatim>\<open><-done\<close> (line 68), at \<^verbatim>\<open>return i\<close> (line 69), or has
  returned. The spawned function is at \<^verbatim>\<open>i = 5\<close> (line 63), at the send (line 65), or has
  finished.
\<close>

datatype ch_caller = ChGo | ChReceive | ChReturn | ChReturned go_int

datatype ch_task = ChUnspawned | ChAssign | ChSend | ChExited

record ch_state =
  ch_i :: go_int
  ch_caller :: ch_caller
  ch_task :: ch_task

definition ch_init :: ch_state where
  "ch_init = \<lparr>ch_i = 0, ch_caller = ChGo, ch_task = ChUnspawned\<rparr>"

text \<open>The handoff: the receive of line 68 and the send of line 65 happen together.\<close>

definition ch_handoff :: "ch_state \<Rightarrow> ch_state outcome" where
  "ch_handoff s =
     (if ch_caller s = ChReceive \<and> ch_task s = ChSend
      then Proceeds (s\<lparr>ch_caller := ChReturn, ch_task := ChExited\<rparr>)
      else Blocks)"

definition ch_step :: "goroutine \<Rightarrow> ch_state \<Rightarrow> ch_state outcome" where
  "ch_step g s =
     (case g of
        Caller \<Rightarrow>
          (case ch_caller s of
             ChGo \<Rightarrow> Proceeds (s\<lparr>ch_task := ChAssign, ch_caller := ChReceive\<rparr>)
           | ChReceive \<Rightarrow> ch_handoff s
           | ChReturn \<Rightarrow> Proceeds (s\<lparr>ch_caller := ChReturned (ch_i s)\<rparr>)
           | ChReturned r \<Rightarrow> Blocks)
      | Task \<Rightarrow>
          (case ch_task s of
             ChUnspawned \<Rightarrow> Blocks
           | ChAssign \<Rightarrow> Proceeds (s\<lparr>ch_i := 5, ch_task := ChSend\<rparr>)
           | ChSend \<Rightarrow> ch_handoff s
           | ChExited \<Rightarrow> Blocks))"

definition blockingWithChannel :: "goroutine list \<Rightarrow> ch_state run" where
  "blockingWithChannel sched = exec ch_step sched ch_init"

definition ch_result :: "ch_state run \<Rightarrow> go_int option" where
  "ch_result r =
     (case r of
        Crashed \<Rightarrow> None
      | Running s \<Rightarrow> (case ch_caller s of ChReturned v \<Rightarrow> Some v | _ \<Rightarrow> None))"

definition ch_left :: "ch_state \<Rightarrow> nat" where
  "ch_left s =
     (case ch_caller s of ChGo \<Rightarrow> 3 | ChReceive \<Rightarrow> 2 | ChReturn \<Rightarrow> 1 | ChReturned r \<Rightarrow> 0)
     + (case ch_task s of ChUnspawned \<Rightarrow> 2 | ChAssign \<Rightarrow> 2 | ChSend \<Rightarrow> 1 | ChExited \<Rightarrow> 0)"

section \<open>returningWithChannel\<close>

text \<open>
  Lines 72 to 81. The state starts after \<^verbatim>\<open>make(chan int)\<close> (line 74); the channel is
  unbuffered and never closed. The caller is at the \<^verbatim>\<open>go\<close> statement (line 75), at
  \<^verbatim>\<open>return c\<close> (line 80), or has the handle in hand. The spawned function is at
  \<^verbatim>\<open>c <- 5\<close> (line 77) or has finished.

  What the caller does with the handle is not part of the function: \<^verbatim>\<open>main\<close> receives from
  it once (line 29). The caller is given a number of receives it goes on to attempt, one
  after the other, and the list of the values it has received so far.
\<close>

datatype rc_caller = RcGo | RcReturn | RcReturned

datatype rc_task = RcUnspawned | RcSend | RcExited

record rc_state =
  rc_caller :: rc_caller
  rc_task :: rc_task
  rc_attempts :: nat
  rc_received :: "go_int list"

definition rc_init :: "nat \<Rightarrow> rc_state" where
  "rc_init n = \<lparr>rc_caller = RcGo, rc_task = RcUnspawned, rc_attempts = n, rc_received = []\<rparr>"

text \<open>The handoff: a receive on the handle and the send of line 77 happen together.\<close>

definition rc_handoff :: "rc_state \<Rightarrow> rc_state outcome" where
  "rc_handoff s =
     (if rc_caller s = RcReturned \<and> 0 < rc_attempts s \<and> rc_task s = RcSend
      then Proceeds (s\<lparr>rc_attempts := rc_attempts s - 1,
                       rc_received := rc_received s @ [5],
                       rc_task := RcExited\<rparr>)
      else Blocks)"

definition rc_step :: "goroutine \<Rightarrow> rc_state \<Rightarrow> rc_state outcome" where
  "rc_step g s =
     (case g of
        Caller \<Rightarrow>
          (case rc_caller s of
             RcGo \<Rightarrow> Proceeds (s\<lparr>rc_task := RcSend, rc_caller := RcReturn\<rparr>)
           | RcReturn \<Rightarrow> Proceeds (s\<lparr>rc_caller := RcReturned\<rparr>)
           | RcReturned \<Rightarrow> rc_handoff s)
      | Task \<Rightarrow>
          (case rc_task s of
             RcUnspawned \<Rightarrow> Blocks
           | RcSend \<Rightarrow> rc_handoff s
           | RcExited \<Rightarrow> Blocks))"

definition returningWithChannel :: "nat \<Rightarrow> goroutine list \<Rightarrow> rc_state run" where
  "returningWithChannel n sched = exec rc_step sched (rc_init n)"

definition rc_values :: "rc_state run \<Rightarrow> go_int list" where
  "rc_values r = (case r of Crashed \<Rightarrow> [] | Running s \<Rightarrow> rc_received s)"

definition rc_left :: "rc_state \<Rightarrow> nat" where
  "rc_left s =
     (case rc_caller s of RcGo \<Rightarrow> 2 | RcReturn \<Rightarrow> 1 | RcReturned \<Rightarrow> 0)
     + (case rc_task s of RcUnspawned \<Rightarrow> 1 | RcSend \<Rightarrow> 1 | RcExited \<Rightarrow> 0)"

section \<open>useMutex\<close>

text \<open>
  Lines 101 to 110. The state starts after \<^verbatim>\<open>i := &safeNumber{}\<close> (line 103). The caller is
  at the \<^verbatim>\<open>go\<close> statement (line 106), inside its call \<^verbatim>\<open>i.get()\<close> (line 109), or has
  returned. The spawned function is inside its call \<^verbatim>\<open>i.set(5)\<close> (line 107) or has
  finished. The calls run the steps of the accessors on the shared container.
\<close>

datatype mu_caller = MuGo | MuGet call | MuReturned go_int

datatype mu_task = MuUnspawned | MuSet call | MuExited

record mu_state =
  mu_i :: safeNumber
  mu_caller :: mu_caller
  mu_task :: mu_task

definition mu_init :: mu_state where
  "mu_init = \<lparr>mu_i = new_safeNumber, mu_caller = MuGo, mu_task = MuUnspawned\<rparr>"

definition mu_step :: "goroutine \<Rightarrow> mu_state \<Rightarrow> mu_state outcome" where
  "mu_step g s =
     (case g of
        Caller \<Rightarrow>
          (case mu_caller s of
             MuGo \<Rightarrow> Proceeds (s\<lparr>mu_task := MuSet (enter 5), mu_caller := MuGet (enter 0)\<rparr>)
           | MuGet c \<Rightarrow>
               (if at c = AtExit then Proceeds (s\<lparr>mu_caller := MuReturned (slot c)\<rparr>)
                else and_then (get_step c (mu_i s))
                       (\<lambda>(c', i'). Proceeds (s\<lparr>mu_i := i', mu_caller := MuGet c'\<rparr>)))
           | MuReturned r \<Rightarrow> Blocks)
      | Task \<Rightarrow>
          (case mu_task s of
             MuUnspawned \<Rightarrow> Blocks
           | MuSet c \<Rightarrow>
               (if at c = AtExit then Proceeds (s\<lparr>mu_task := MuExited\<rparr>)
                else and_then (set_step c (mu_i s))
                       (\<lambda>(c', i'). Proceeds (s\<lparr>mu_i := i', mu_task := MuSet c'\<rparr>)))
           | MuExited \<Rightarrow> Blocks))"

definition useMutex :: "goroutine list \<Rightarrow> mu_state run" where
  "useMutex sched = exec mu_step sched mu_init"

definition mu_result :: "mu_state run \<Rightarrow> go_int option" where
  "mu_result r =
     (case r of
        Crashed \<Rightarrow> None
      | Running s \<Rightarrow> (case mu_caller s of MuReturned v \<Rightarrow> Some v | _ \<Rightarrow> None))"

text \<open>A call holds the lock between its \<^verbatim>\<open>Lock\<close> and its \<^verbatim>\<open>Unlock\<close>.\<close>

definition holds_lock :: "call \<Rightarrow> bool" where
  "holds_lock c = (at c = AtBody \<or> at c = AtUnlock)"

definition get_holds :: "mu_state \<Rightarrow> bool" where
  "get_holds s = (case mu_caller s of MuGet c \<Rightarrow> holds_lock c | _ \<Rightarrow> False)"

definition set_holds :: "mu_state \<Rightarrow> bool" where
  "set_holds s = (case mu_task s of MuSet c \<Rightarrow> holds_lock c | _ \<Rightarrow> False)"

definition steps_left :: "call \<Rightarrow> nat" where
  "steps_left c = (case at c of AtLock \<Rightarrow> 4 | AtBody \<Rightarrow> 3 | AtUnlock \<Rightarrow> 2 | AtExit \<Rightarrow> 1)"

definition mu_left :: "mu_state \<Rightarrow> nat" where
  "mu_left s =
     (case mu_caller s of MuGo \<Rightarrow> 5 | MuGet c \<Rightarrow> steps_left c | MuReturned r \<Rightarrow> 0)
     + (case mu_task s of MuUnspawned \<Rightarrow> 4 | MuSet c \<Rightarrow> steps_left c | MuExited \<Rightarrow> 0)"

section \<open>What holds in every state a schedule can reach\<close>

text \<open>
  One predicate per function, relating the positions of the two goroutines to the shared
  variables. Each is shown below to hold at the start and to be kept by every step.
\<close>

definition wg_inv :: "wg_state \<Rightarrow> bool" where
  "wg_inv s =
     (case wg_caller s of
        WgAdd \<Rightarrow> wg_task s = WgUnspawned \<and> wg_wg s = 0 \<and> wg_i s = 0
      | WgGo \<Rightarrow> wg_task s = WgUnspawned \<and> wg_wg s = 1 \<and> wg_i s = 0
      | WgWait \<Rightarrow>
          (wg_task s = WgAssign \<and> wg_wg s = 1 \<and> wg_i s = 0)
          \<or> (wg_task s = WgDone \<and> wg_wg s = 1 \<and> wg_i s = 5)
          \<or> (wg_task s = WgExited \<and> wg_wg s = 0 \<and> wg_i s = 5)
      | WgReturn \<Rightarrow> wg_task s = WgExited \<and> wg_wg s = 0 \<and> wg_i s = 5
      | WgReturned r \<Rightarrow> wg_task s = WgExited \<and> wg_wg s = 0 \<and> wg_i s = 5 \<and> r = 5)"

definition ch_inv :: "ch_state \<Rightarrow> bool" where
  "ch_inv s =
     (case ch_caller s of
        ChGo \<Rightarrow> ch_task s = ChUnspawned \<and> ch_i s = 0
      | ChReceive \<Rightarrow>
          (ch_task s = ChAssign \<and> ch_i s = 0) \<or> (ch_task s = ChSend \<and> ch_i s = 5)
      | ChReturn \<Rightarrow> ch_task s = ChExited \<and> ch_i s = 5
      | ChReturned r \<Rightarrow> ch_task s = ChExited \<and> ch_i s = 5 \<and> r = 5)"

definition rc_inv :: "nat \<Rightarrow> rc_state \<Rightarrow> bool" where
  "rc_inv n s =
     (case rc_caller s of
        RcGo \<Rightarrow> rc_task s = RcUnspawned \<and> rc_attempts s = n \<and> rc_received s = []
      | RcReturn \<Rightarrow> rc_task s = RcSend \<and> rc_attempts s = n \<and> rc_received s = []
      | RcReturned \<Rightarrow>
          (rc_task s = RcSend \<and> rc_attempts s = n \<and> rc_received s = [])
          \<or> (rc_task s = RcExited \<and> 0 < n \<and> rc_attempts s = n - 1 \<and> rc_received s = [5]))"

text \<open>The spawned function of \<^verbatim>\<open>useMutex\<close> has done its assignment of line 98.\<close>

definition set_written :: "mu_state \<Rightarrow> bool" where
  "set_written s =
     (case mu_task s of
        MuUnspawned \<Rightarrow> False
      | MuSet c \<Rightarrow> at c = AtUnlock \<or> at c = AtExit
      | MuExited \<Rightarrow> True)"

definition mu_inv :: "mu_state \<Rightarrow> bool" where
  "mu_inv s =
     (m (mu_i s) = (get_holds s \<or> set_holds s)
      \<and> (get_holds s \<and> set_holds s) = False
      \<and> val (mu_i s) = (if set_written s then 5 else 0)
      \<and> (case mu_caller s of
           MuGo \<Rightarrow> mu_task s = MuUnspawned
         | MuGet c \<Rightarrow>
             (case mu_task s of MuUnspawned \<Rightarrow> False | _ \<Rightarrow> True)
             \<and> (at c = AtLock \<or> at c = AtBody \<or> slot c = 0 \<or> slot c = 5)
         | MuReturned r \<Rightarrow>
             (case mu_task s of MuUnspawned \<Rightarrow> False | _ \<Rightarrow> True) \<and> (r = 0 \<or> r = 5))
      \<and> (case mu_task s of MuSet c \<Rightarrow> slot c = 5 | _ \<Rightarrow> True))"

text \<open>
  The value the caller's \<^verbatim>\<open>i.get()\<close> of \<^verbatim>\<open>useMutex\<close> is bound to return, from the moment
  it has the lock: what \<^verbatim>\<open>val\<close> holds while the read of line 90 is still to come, what
  the read has put in the result slot afterwards. Nothing is settled before the lock is
  taken.
\<close>

definition get_bound_to_return :: "mu_state \<Rightarrow> go_int option" where
  "get_bound_to_return s =
     (case mu_caller s of
        MuGo \<Rightarrow> None
      | MuGet c \<Rightarrow>
          (case at c of
             AtLock \<Rightarrow> None
           | AtBody \<Rightarrow> Some (val (mu_i s))
           | AtUnlock \<Rightarrow> Some (slot c)
           | AtExit \<Rightarrow> Some (slot c))
      | MuReturned r \<Rightarrow> Some r)"

section \<open>Runs of a schedule\<close>

lemma exec_Nil: "exec step [] s = Running s"
  by (simp add: exec_def)

lemma exec_snoc: "exec step (sched @ [g]) s = pick step g (exec step sched s)"
  by (simp add: exec_def)

lemma exec_append: "exec step (a @ b) s = foldl (\<lambda>r g. pick step g r) (exec step a s) b"
  by (simp add: exec_def)

lemma exec_invariant:
  assumes init: "P s0"
    and keep: "\<And>g s t. P s \<Longrightarrow> step g s = Proceeds t \<Longrightarrow> P t"
    and safe: "\<And>g s. P s \<Longrightarrow> step g s \<noteq> Crashes"
  shows "\<exists>s. exec step sched s0 = Running s \<and> P s"
proof (induction sched rule: rev_induct)
  case Nil
  show ?case using init by (simp add: exec_Nil)
next
  case (snoc g sched)
  then obtain s where s: "exec step sched s0 = Running s" "P s" by blast
  show ?case
  proof (cases "step g s")
    case (Proceeds t)
    with s keep show ?thesis by (simp add: exec_snoc pick_def)
  next
    case Blocks
    with s show ?thesis by (simp add: exec_snoc pick_def)
  next
    case Crashes
    with s safe show ?thesis by blast
  qed
qed

lemma stuck_forever:
  "stuck step s \<Longrightarrow> foldl (\<lambda>r g. pick step g r) (Running s) rest = Running s"
proof (induction rest)
  case Nil
  show ?case by simp
next
  case (Cons g rest)
  have "pick step g (Running s) = Running s"
    using Cons.prems by (cases g) (simp_all add: stuck_def pick_def)
  with Cons show ?case by simp
qed

section \<open>The accessors alone\<close>

lemma get_unlocked: "\<not> m i \<Longrightarrow> get i = Proceeds (val i, i)"
  by (simp add: get_def get_step_def enter_def and_then_def mutex_Lock_def mutex_Unlock_def)

lemma get_locked: "m i \<Longrightarrow> get i = Blocks"
  by (simp add: get_def get_step_def enter_def and_then_def mutex_Lock_def)

lemma set_unlocked: "\<not> m i \<Longrightarrow> set_sn i v = Proceeds (i\<lparr>val := v\<rparr>)"
  by (simp add: set_sn_def set_step_def enter_def and_then_def mutex_Lock_def mutex_Unlock_def)

lemma set_locked: "m i \<Longrightarrow> set_sn i v = Blocks"
  by (simp add: set_sn_def set_step_def enter_def and_then_def mutex_Lock_def)

lemma get_steps:
  assumes "\<not> m i"
  shows "get_step (enter 0) i = Proceeds (\<lparr>at = AtBody, slot = 0\<rparr>, i\<lparr>m := True\<rparr>)"
    and "get_step \<lparr>at = AtBody, slot = 0\<rparr> (i\<lparr>m := True\<rparr>)
         = Proceeds (\<lparr>at = AtUnlock, slot = val i\<rparr>, i\<lparr>m := True\<rparr>)"
    and "get_step \<lparr>at = AtUnlock, slot = val i\<rparr> (i\<lparr>m := True\<rparr>)
         = Proceeds (\<lparr>at = AtExit, slot = val i\<rparr>, i)"
  using assms by (simp_all add: get_step_def enter_def and_then_def mutex_Lock_def mutex_Unlock_def)

lemma set_steps:
  assumes "\<not> m i"
  shows "set_step (enter v) i = Proceeds (\<lparr>at = AtBody, slot = v\<rparr>, i\<lparr>m := True\<rparr>)"
    and "set_step \<lparr>at = AtBody, slot = v\<rparr> (i\<lparr>m := True\<rparr>)
         = Proceeds (\<lparr>at = AtUnlock, slot = v\<rparr>, i\<lparr>val := v, m := True\<rparr>)"
    and "set_step \<lparr>at = AtUnlock, slot = v\<rparr> (i\<lparr>val := v, m := True\<rparr>)
         = Proceeds (\<lparr>at = AtExit, slot = v\<rparr>, i\<lparr>val := v\<rparr>)"
  using assms by (simp_all add: set_step_def enter_def and_then_def mutex_Lock_def mutex_Unlock_def)

lemma enter_locked:
  "m i \<Longrightarrow> get_step (enter 0) i = Blocks \<and> set_step (enter v) i = Blocks"
  by (simp add: get_step_def set_step_def enter_def and_then_def mutex_Lock_def)

section \<open>The invariants hold\<close>

lemmas wg_defs = wg_step_def and_then_def wg_Add_def wg_Done_def wg_Wait_def

lemma wg_inv_init: "wg_inv wg_init"
  by (simp add: wg_inv_def wg_init_def)

lemma wg_inv_keep: "wg_inv s \<Longrightarrow> wg_step g s = Proceeds t \<Longrightarrow> wg_inv t"
  by (cases g; cases "wg_caller s"; cases "wg_task s")
     (auto simp: wg_inv_def wg_defs split: if_splits)

lemma wg_inv_safe: "wg_inv s \<Longrightarrow> wg_step g s \<noteq> Crashes"
  by (cases g; cases "wg_caller s"; cases "wg_task s")
     (auto simp: wg_inv_def wg_defs split: if_splits)

lemma wg_reach: "\<exists>s. blockingWithWaitgroups sched = Running s \<and> wg_inv s"
  unfolding blockingWithWaitgroups_def
  by (rule exec_invariant [where P = wg_inv, OF wg_inv_init wg_inv_keep wg_inv_safe])

lemma wg_left_less: "wg_inv s \<Longrightarrow> wg_step g s = Proceeds t \<Longrightarrow> wg_left t < wg_left s"
  by (cases g; cases "wg_caller s"; cases "wg_task s")
     (auto simp: wg_inv_def wg_left_def wg_defs split: if_splits)

lemma wg_stuck_returned: "wg_inv s \<Longrightarrow> stuck wg_step s \<Longrightarrow> wg_caller s = WgReturned 5"
  by (cases "wg_caller s"; cases "wg_task s")
     (auto simp: wg_inv_def stuck_def wg_defs split: if_splits)

lemma ch_inv_init: "ch_inv ch_init"
  by (simp add: ch_inv_def ch_init_def)

lemma ch_inv_keep: "ch_inv s \<Longrightarrow> ch_step g s = Proceeds t \<Longrightarrow> ch_inv t"
  by (cases g; cases "ch_caller s"; cases "ch_task s")
     (auto simp: ch_inv_def ch_step_def ch_handoff_def split: if_splits)

lemma ch_inv_safe: "ch_step g s \<noteq> Crashes"
  by (cases g; cases "ch_caller s"; cases "ch_task s")
     (auto simp: ch_step_def ch_handoff_def split: if_splits)

lemma ch_reach: "\<exists>s. blockingWithChannel sched = Running s \<and> ch_inv s"
  unfolding blockingWithChannel_def
  by (rule exec_invariant [where P = ch_inv, OF ch_inv_init ch_inv_keep ch_inv_safe])

lemma ch_left_less: "ch_inv s \<Longrightarrow> ch_step g s = Proceeds t \<Longrightarrow> ch_left t < ch_left s"
  by (cases g; cases "ch_caller s"; cases "ch_task s")
     (auto simp: ch_inv_def ch_left_def ch_step_def ch_handoff_def split: if_splits)

lemma ch_stuck_returned: "ch_inv s \<Longrightarrow> stuck ch_step s \<Longrightarrow> ch_caller s = ChReturned 5"
  by (cases "ch_caller s"; cases "ch_task s")
     (auto simp: ch_inv_def stuck_def ch_step_def ch_handoff_def split: if_splits)

lemma rc_inv_init: "rc_inv n (rc_init n)"
  by (simp add: rc_inv_def rc_init_def)

lemma rc_inv_keep: "rc_inv n s \<Longrightarrow> rc_step g s = Proceeds t \<Longrightarrow> rc_inv n t"
  by (cases g; cases "rc_caller s"; cases "rc_task s")
     (auto simp: rc_inv_def rc_step_def rc_handoff_def split: if_splits)

lemma rc_inv_safe: "rc_step g s \<noteq> Crashes"
  by (cases g; cases "rc_caller s"; cases "rc_task s")
     (auto simp: rc_step_def rc_handoff_def split: if_splits)

lemma rc_reach: "\<exists>s. returningWithChannel n sched = Running s \<and> rc_inv n s"
  unfolding returningWithChannel_def
  by (rule exec_invariant [where P = "rc_inv n", OF rc_inv_init rc_inv_keep rc_inv_safe])

lemma rc_left_less: "rc_inv n s \<Longrightarrow> rc_step g s = Proceeds t \<Longrightarrow> rc_left t < rc_left s"
  by (cases g; cases "rc_caller s"; cases "rc_task s")
     (auto simp: rc_inv_def rc_left_def rc_step_def rc_handoff_def split: if_splits)

lemma rc_stuck_received:
  "rc_inv n s \<Longrightarrow> 0 < n \<Longrightarrow> stuck rc_step s \<Longrightarrow> rc_received s = [5]"
  by (cases "rc_caller s"; cases "rc_task s")
     (auto simp: rc_inv_def stuck_def rc_step_def rc_handoff_def split: if_splits)

lemma rc_received_stuck:
  "rc_inv n s \<Longrightarrow> rc_received s \<noteq> [] \<Longrightarrow> stuck rc_step s"
  by (cases "rc_caller s"; cases "rc_task s")
     (auto simp: rc_inv_def stuck_def rc_step_def rc_handoff_def split: if_splits)

lemma rc_caller_count:
  "\<exists>s. returningWithChannel n sched = Running s
     \<and> rc_caller s = (if count_list sched Caller = 0 then RcGo
                      else if count_list sched Caller = 1 then RcReturn else RcReturned)"
proof (induction sched rule: rev_induct)
  case Nil
  show ?case by (simp add: returningWithChannel_def exec_Nil rc_init_def)
next
  case (snoc g sched)
  then obtain s where s: "returningWithChannel n sched = Running s"
    "rc_caller s = (if count_list sched Caller = 0 then RcGo
                    else if count_list sched Caller = 1 then RcReturn else RcReturned)"
    by blast
  have e: "returningWithChannel n (sched @ [g]) = pick rc_step g (Running s)"
    using s(1) by (simp add: returningWithChannel_def exec_snoc)
  show ?case
    unfolding e using s(2)
    by (cases g; cases "rc_caller s"; cases "rc_task s")
       (auto simp: pick_def rc_step_def rc_handoff_def split: if_splits)
qed

lemmas mu_defs = mu_step_def and_then_def get_step_def set_step_def mutex_Lock_def
  mutex_Unlock_def enter_def get_holds_def set_holds_def holds_lock_def set_written_def

lemma mu_inv_init: "mu_inv mu_init"
  by (simp add: mu_inv_def mu_init_def new_safeNumber_def mu_defs)

lemma mu_inv_keep: "mu_inv s \<Longrightarrow> mu_step g s = Proceeds t \<Longrightarrow> mu_inv t"
  by (cases g; cases "mu_caller s"; cases "mu_task s")
     (auto simp: mu_inv_def mu_defs split: if_splits position.splits)

lemma mu_inv_safe: "mu_inv s \<Longrightarrow> mu_step g s \<noteq> Crashes"
  by (cases g; cases "mu_caller s"; cases "mu_task s")
     (auto simp: mu_inv_def mu_defs split: if_splits position.splits)

lemma mu_reach: "\<exists>s. useMutex sched = Running s \<and> mu_inv s"
  unfolding useMutex_def
  by (rule exec_invariant [where P = mu_inv, OF mu_inv_init mu_inv_keep mu_inv_safe])

lemma mu_left_less: "mu_inv s \<Longrightarrow> mu_step g s = Proceeds t \<Longrightarrow> mu_left t < mu_left s"
  by (cases g; cases "mu_caller s"; cases "mu_task s")
     (auto simp: mu_inv_def mu_left_def steps_left_def mu_defs split: if_splits position.splits)

lemma mu_stuck_over:
  "mu_inv s \<Longrightarrow> stuck mu_step s \<Longrightarrow> (\<exists>r. mu_caller s = MuReturned r) \<and> mu_task s = MuExited"
  by (cases "mu_caller s"; cases "mu_task s")
     (auto simp: mu_inv_def stuck_def mu_defs split: if_splits position.splits)

lemma get_bound_keep:
  "mu_inv s \<Longrightarrow> get_bound_to_return s = Some v \<Longrightarrow> mu_step g s = Proceeds t
   \<Longrightarrow> get_bound_to_return t = Some v"
  by (cases g; cases "mu_caller s"; cases "mu_task s")
     (auto simp: mu_inv_def get_bound_to_return_def mu_defs split: if_splits position.splits)

lemma get_bound_at_lock:
  "mu_inv s \<Longrightarrow> mu_caller s = MuGet k \<Longrightarrow> at k = AtBody
   \<Longrightarrow> get_bound_to_return s = Some (if set_written s then 5 else 0)"
  by (simp add: mu_inv_def get_bound_to_return_def)

lemma get_bound_result:
  "mu_result (Running t) = Some v \<Longrightarrow> get_bound_to_return t = Some v"
  by (cases "mu_caller t") (simp_all add: mu_result_def get_bound_to_return_def)

lemma useMutex_lock_order:
  assumes e: "useMutex e = Running s"
    and k: "mu_caller s = MuGet k" "at k = AtBody"
    and t: "useMutex (e @ rest) = Running t"
    and v: "mu_result (Running t) = Some v"
  shows "v = (if set_written s then 5 else 0)"
proof -
  have inv: "mu_inv s"
    using mu_reach [of e] e by auto
  let ?w = "if set_written s then 5 else 0 :: go_int"
  let ?P = "\<lambda>x. mu_inv x \<and> get_bound_to_return x = Some ?w"
  have start: "?P s"
    using inv get_bound_at_lock [OF inv k] by simp
  have "\<exists>y. exec mu_step rest s = Running y \<and> ?P y"
  proof (rule exec_invariant [where P = ?P])
    show "?P s" by (rule start)
  next
    fix g x y
    assume "?P x" and "mu_step g x = Proceeds y"
    then show "?P y" using mu_inv_keep get_bound_keep by blast
  next
    fix g x
    assume "?P x"
    then show "mu_step g x \<noteq> Crashes" using mu_inv_safe by blast
  qed
  then obtain y where y: "exec mu_step rest s = Running y" "?P y"
    by blast
  have "useMutex (e @ rest) = exec mu_step rest s"
    using e by (simp add: useMutex_def exec_def)
  then have "y = t"
    using y(1) t by simp
  then show ?thesis
    using y(2) get_bound_result [OF v] by simp
qed

lemmas mu_run_defs = useMutex_def exec_def pick_def mu_step_def and_then_def get_step_def
  set_step_def mutex_Lock_def mutex_Unlock_def enter_def mu_init_def new_safeNumber_def
  mu_result_def

lemma useMutex_early_get:
  "mu_result (useMutex [Caller, Caller, Caller, Caller, Caller]) = Some 0"
  by (simp add: mu_run_defs)

lemma useMutex_late_get:
  "mu_result (useMutex [Caller, Task, Task, Task, Caller, Caller, Caller, Caller]) = Some 5"
  by (simp add: mu_run_defs)

section \<open>The claims\<close>

text \<open>
  C1. Whatever the schedule, \<^verbatim>\<open>blockingWithWaitgroups\<close> does not crash, the value it has
  returned (if it has returned already) is 5 and never the 0 that \<^verbatim>\<open>i\<close> starts with, a run
  in which nothing can move any more has returned 5, and every step leaves one step less to
  do: the function returns, and what it returns is 5.
\<close>

theorem blockingWithWaitgroups_returns_5:
  "\<exists>s. blockingWithWaitgroups sched = Running s
     \<and> (wg_result (Running s) = None \<or> wg_result (Running s) = Some 5)
     \<and> (stuck wg_step s \<longrightarrow> wg_result (Running s) = Some 5)
     \<and> (\<forall>g t. wg_step g s = Proceeds t \<longrightarrow> wg_left t < wg_left s)"
proof -
  obtain s where s: "blockingWithWaitgroups sched = Running s" "wg_inv s"
    using wg_reach by blast
  have "wg_result (Running s) = None \<or> wg_result (Running s) = Some 5"
    using s(2) by (cases "wg_caller s") (simp_all add: wg_result_def wg_inv_def)
  moreover have "stuck wg_step s \<longrightarrow> wg_result (Running s) = Some 5"
    using wg_stuck_returned [OF s(2)] by (simp add: wg_result_def)
  moreover have "\<forall>g t. wg_step g s = Proceeds t \<longrightarrow> wg_left t < wg_left s"
    using wg_left_less [OF s(2)] by blast
  ultimately show ?thesis using s(1) by blast
qed

text \<open>
  The schedule in which the spawned function runs while the caller waits.
\<close>

theorem blockingWithWaitgroups_returns_5_witness:
  "blockingWithWaitgroups [Caller, Caller, Task, Task, Caller, Caller]
     = Running \<lparr>wg_i = 5, wg_wg = 0, wg_caller = WgReturned 5, wg_task = WgExited\<rparr>
   \<and> stuck wg_step \<lparr>wg_i = 5, wg_wg = 0, wg_caller = WgReturned 5, wg_task = WgExited\<rparr>
   \<and> wg_result (blockingWithWaitgroups [Caller, Caller, Task, Task, Caller, Caller]) = Some 5"
  using blockingWithWaitgroups_returns_5 [of "[Caller, Caller, Task, Task, Caller, Caller]"]
  by (simp add: blockingWithWaitgroups_def exec_def pick_def wg_defs wg_init_def stuck_def
        wg_result_def)

text \<open>
  C2. Whatever the schedule, \<^verbatim>\<open>useMutex\<close> does not crash, the value it has returned is 0
  or 5 and nothing else, the calls of \<^verbatim>\<open>get\<close> and \<^verbatim>\<open>set\<close> are never both between their
  \<^verbatim>\<open>Lock\<close> and their \<^verbatim>\<open>Unlock\<close> (so the read of line 90 never meets the write of line 98
  half way), a run in which nothing can move any more has returned, and every step leaves
  one step less to do. Both values are returned by some schedule: 0 when the caller reads
  first, 5 when the spawned function writes first.
\<close>

theorem useMutex_returns_0_or_5:
  "(\<exists>s. useMutex sched = Running s
      \<and> (mu_result (Running s) = None \<or> mu_result (Running s) = Some 0
          \<or> mu_result (Running s) = Some 5)
      \<and> (get_holds s \<and> set_holds s) = False
      \<and> (stuck mu_step s \<longrightarrow> mu_result (Running s) = Some 0 \<or> mu_result (Running s) = Some 5)
      \<and> (\<forall>g t. mu_step g s = Proceeds t \<longrightarrow> mu_left t < mu_left s))
   \<and> mu_result (useMutex [Caller, Caller, Caller, Caller, Caller]) = Some 0
   \<and> mu_result (useMutex [Caller, Task, Task, Task, Caller, Caller, Caller, Caller]) = Some 5"
proof -
  obtain s where s: "useMutex sched = Running s" "mu_inv s"
    using mu_reach by blast
  have r: "mu_result (Running s) = None \<or> mu_result (Running s) = Some 0
      \<or> mu_result (Running s) = Some 5"
    using s(2) by (cases "mu_caller s") (auto simp: mu_result_def mu_inv_def)
  have x: "(get_holds s \<and> set_holds s) = False"
    using s(2) by (simp add: mu_inv_def)
  have e: "stuck mu_step s \<longrightarrow> mu_result (Running s) = Some 0 \<or> mu_result (Running s) = Some 5"
    using mu_stuck_over [OF s(2)] r by (auto simp: mu_result_def)
  have l: "\<forall>g t. mu_step g s = Proceeds t \<longrightarrow> mu_left t < mu_left s"
    using mu_left_less [OF s(2)] by blast
  show ?thesis
    using s(1) r x e l useMutex_early_get useMutex_late_get by blast
qed

text \<open>
  A schedule in which the two calls compete for the lock and the spawned function wins.
\<close>

theorem useMutex_returns_0_or_5_witness:
  "useMutex [Caller, Task, Caller, Task, Task, Caller, Caller, Caller, Caller, Task]
     = Running \<lparr>mu_i = \<lparr>val = 5, m = False\<rparr>, mu_caller = MuReturned 5, mu_task = MuExited\<rparr>
   \<and> stuck mu_step
        \<lparr>mu_i = \<lparr>val = 5, m = False\<rparr>, mu_caller = MuReturned 5, mu_task = MuExited\<rparr>
   \<and> mu_result (useMutex [Caller, Task, Caller, Task, Task, Caller, Caller, Caller, Caller, Task])
       = Some 5"
  using useMutex_returns_0_or_5
    [of "[Caller, Task, Caller, Task, Task, Caller, Caller, Caller, Caller, Task]"]
  by (simp add: mu_run_defs stuck_def)

text \<open>
  C3, as stated, fails for \<^verbatim>\<open>useMutex\<close>: under the schedule that runs the caller alone,
  up to its return, the function returns 0 and not 5.
\<close>

theorem useMutex_can_return_0:
  "mu_result (useMutex [Caller, Caller, Caller, Caller, Caller]) = Some 0
   \<and> mu_result (useMutex [Caller, Caller, Caller, Caller, Caller]) \<noteq> Some 5"
  by (simp add: mu_run_defs)

text \<open>
  C3, amended. Whatever the schedules, none of the four functions crashes, and each gets to
  its end in a bounded number of steps, every step leaving one step less to do.
  \<^verbatim>\<open>blockingWithWaitgroups\<close> and \<^verbatim>\<open>blockingWithChannel\<close> return nothing but 5 and have
  returned 5 once nothing can move any more; the one receive from the handle of
  \<^verbatim>\<open>returningWithChannel\<close> yields nothing but 5 and has yielded it once nothing can move
  any more. \<^verbatim>\<open>useMutex\<close> returns 0 or 5, and has returned one of them once nothing can
  move any more. Which of the two is settled when the caller's \<^verbatim>\<open>get\<close> takes the lock:
  whatever the scheduler does from then on, the value returned is 5 if the spawned
  \<^verbatim>\<open>set\<close> had done its assignment by then, and 0 if it had not. Both happen: 0 under the
  schedule that runs the caller alone, 5 under one that lets the spawned function go first.
\<close>

theorem patterns_results:
  "(\<exists>s. blockingWithWaitgroups a = Running s
      \<and> (\<forall>v. wg_result (Running s) = Some v \<longrightarrow> v = 5)
      \<and> (stuck wg_step s \<longrightarrow> wg_result (Running s) = Some 5)
      \<and> (\<forall>g t. wg_step g s = Proceeds t \<longrightarrow> wg_left t < wg_left s))
   \<and> (\<exists>s. blockingWithChannel b = Running s
      \<and> (\<forall>v. ch_result (Running s) = Some v \<longrightarrow> v = 5)
      \<and> (stuck ch_step s \<longrightarrow> ch_result (Running s) = Some 5)
      \<and> (\<forall>g t. ch_step g s = Proceeds t \<longrightarrow> ch_left t < ch_left s))
   \<and> (\<exists>s. returningWithChannel 1 c = Running s
      \<and> (rc_received s = [] \<or> rc_received s = [5])
      \<and> (stuck rc_step s \<longrightarrow> rc_received s = [5])
      \<and> (\<forall>g t. rc_step g s = Proceeds t \<longrightarrow> rc_left t < rc_left s))
   \<and> (\<exists>s. useMutex d = Running s
      \<and> (\<forall>v. mu_result (Running s) = Some v \<longrightarrow> v = 0 \<or> v = 5)
      \<and> (stuck mu_step s \<longrightarrow> mu_result (Running s) = Some 0 \<or> mu_result (Running s) = Some 5)
      \<and> (\<forall>g t. mu_step g s = Proceeds t \<longrightarrow> mu_left t < mu_left s))
   \<and> (\<forall>s k t v. useMutex e = Running s \<and> mu_caller s = MuGet k \<and> at k = AtBody
          \<and> useMutex (e @ rest) = Running t \<and> mu_result (Running t) = Some v
        \<longrightarrow> v = (if set_written s then 5 else 0))
   \<and> mu_result (useMutex [Caller, Caller, Caller, Caller, Caller]) = Some 0
   \<and> mu_result (useMutex [Caller, Task, Task, Task, Caller, Caller, Caller, Caller]) = Some 5"
proof -
  obtain s1 where s1: "blockingWithWaitgroups a = Running s1" "wg_inv s1"
    using wg_reach by blast
  have w1: "\<forall>v. wg_result (Running s1) = Some v \<longrightarrow> v = 5"
    using s1(2) by (cases "wg_caller s1") (simp_all add: wg_result_def wg_inv_def)
  have w2: "stuck wg_step s1 \<longrightarrow> wg_result (Running s1) = Some 5"
    using wg_stuck_returned [OF s1(2)] by (simp add: wg_result_def)
  have w3: "\<forall>g t. wg_step g s1 = Proceeds t \<longrightarrow> wg_left t < wg_left s1"
    using wg_left_less [OF s1(2)] by blast
  have one: "\<exists>s. blockingWithWaitgroups a = Running s
      \<and> (\<forall>v. wg_result (Running s) = Some v \<longrightarrow> v = 5)
      \<and> (stuck wg_step s \<longrightarrow> wg_result (Running s) = Some 5)
      \<and> (\<forall>g t. wg_step g s = Proceeds t \<longrightarrow> wg_left t < wg_left s)"
    using s1(1) w1 w2 w3 by blast
  obtain s2 where s2: "blockingWithChannel b = Running s2" "ch_inv s2"
    using ch_reach by blast
  have c1: "\<forall>v. ch_result (Running s2) = Some v \<longrightarrow> v = 5"
    using s2(2) by (cases "ch_caller s2") (simp_all add: ch_result_def ch_inv_def)
  have c2: "stuck ch_step s2 \<longrightarrow> ch_result (Running s2) = Some 5"
    using ch_stuck_returned [OF s2(2)] by (simp add: ch_result_def)
  have c3: "\<forall>g t. ch_step g s2 = Proceeds t \<longrightarrow> ch_left t < ch_left s2"
    using ch_left_less [OF s2(2)] by blast
  have two: "\<exists>s. blockingWithChannel b = Running s
      \<and> (\<forall>v. ch_result (Running s) = Some v \<longrightarrow> v = 5)
      \<and> (stuck ch_step s \<longrightarrow> ch_result (Running s) = Some 5)
      \<and> (\<forall>g t. ch_step g s = Proceeds t \<longrightarrow> ch_left t < ch_left s)"
    using s2(1) c1 c2 c3 by blast
  obtain s3 where s3: "returningWithChannel 1 c = Running s3" "rc_inv 1 s3"
    using rc_reach by blast
  have r1: "rc_received s3 = [] \<or> rc_received s3 = [5]"
    using s3(2) by (cases "rc_caller s3") (auto simp: rc_inv_def)
  have r2: "stuck rc_step s3 \<longrightarrow> rc_received s3 = [5]"
    using rc_stuck_received [OF s3(2)] by simp
  have r3: "\<forall>g t. rc_step g s3 = Proceeds t \<longrightarrow> rc_left t < rc_left s3"
    using rc_left_less [OF s3(2)] by blast
  have three: "\<exists>s. returningWithChannel 1 c = Running s
      \<and> (rc_received s = [] \<or> rc_received s = [5])
      \<and> (stuck rc_step s \<longrightarrow> rc_received s = [5])
      \<and> (\<forall>g t. rc_step g s = Proceeds t \<longrightarrow> rc_left t < rc_left s)"
    using s3(1) r1 r2 r3 by blast
  obtain s4 where s4: "useMutex d = Running s4" "mu_inv s4"
    using mu_reach by blast
  have m1: "\<forall>v. mu_result (Running s4) = Some v \<longrightarrow> v = 0 \<or> v = 5"
    using s4(2) by (cases "mu_caller s4") (auto simp: mu_result_def mu_inv_def)
  have m2: "stuck mu_step s4 \<longrightarrow> mu_result (Running s4) = Some 0 \<or> mu_result (Running s4) = Some 5"
    using mu_stuck_over [OF s4(2)] m1 by (auto simp: mu_result_def)
  have m3: "\<forall>g t. mu_step g s4 = Proceeds t \<longrightarrow> mu_left t < mu_left s4"
    using mu_left_less [OF s4(2)] by blast
  have four: "\<exists>s. useMutex d = Running s
      \<and> (\<forall>v. mu_result (Running s) = Some v \<longrightarrow> v = 0 \<or> v = 5)
      \<and> (stuck mu_step s \<longrightarrow> mu_result (Running s) = Some 0 \<or> mu_result (Running s) = Some 5)
      \<and> (\<forall>g t. mu_step g s = Proceeds t \<longrightarrow> mu_left t < mu_left s)"
    using s4(1) m1 m2 m3 by blast
  have order: "\<forall>s k t v. useMutex e = Running s \<and> mu_caller s = MuGet k \<and> at k = AtBody
          \<and> useMutex (e @ rest) = Running t \<and> mu_result (Running t) = Some v
        \<longrightarrow> v = (if set_written s then 5 else 0)"
    using useMutex_lock_order by blast
  show ?thesis
    using one two three four order useMutex_early_get useMutex_late_get by (intro conjI)
qed

text \<open>
  One complete schedule of each function, that of \<^verbatim>\<open>useMutex\<close> returning 0, and the two
  orders in which the lock can be taken: \<^verbatim>\<open>get\<close> takes it after \<^verbatim>\<open>set\<close> has written
  and 5 is returned, \<^verbatim>\<open>get\<close> takes it before and 0 is returned.
\<close>

theorem patterns_results_witness:
  "wg_result (blockingWithWaitgroups [Caller, Caller, Task, Task, Caller, Caller]) = Some 5
   \<and> ch_result (blockingWithChannel [Caller, Task, Task, Caller]) = Some 5
   \<and> rc_values (returningWithChannel 1 [Caller, Caller, Caller]) = [5]
   \<and> useMutex [Caller, Caller, Caller, Caller, Caller, Task, Task, Task, Task]
       = Running \<lparr>mu_i = \<lparr>val = 5, m = False\<rparr>, mu_caller = MuReturned 0, mu_task = MuExited\<rparr>
   \<and> stuck mu_step
        \<lparr>mu_i = \<lparr>val = 5, m = False\<rparr>, mu_caller = MuReturned 0, mu_task = MuExited\<rparr>
   \<and> useMutex [Caller, Task, Task, Task, Caller]
       = Running \<lparr>mu_i = \<lparr>val = 5, m = True\<rparr>, mu_caller = MuGet \<lparr>at = AtBody, slot = 0\<rparr>,
                   mu_task = MuSet \<lparr>at = AtExit, slot = 5\<rparr>\<rparr>
   \<and> set_written \<lparr>mu_i = \<lparr>val = 5, m = True\<rparr>, mu_caller = MuGet \<lparr>at = AtBody, slot = 0\<rparr>,
                    mu_task = MuSet \<lparr>at = AtExit, slot = 5\<rparr>\<rparr>
   \<and> mu_result (useMutex ([Caller, Task, Task, Task, Caller] @ [Caller, Caller, Caller]))
       = Some 5
   \<and> useMutex [Caller, Caller]
       = Running \<lparr>mu_i = \<lparr>val = 0, m = True\<rparr>, mu_caller = MuGet \<lparr>at = AtBody, slot = 0\<rparr>,
                   mu_task = MuSet \<lparr>at = AtLock, slot = 5\<rparr>\<rparr>
   \<and> \<not> set_written \<lparr>mu_i = \<lparr>val = 0, m = True\<rparr>, mu_caller = MuGet \<lparr>at = AtBody, slot = 0\<rparr>,
                      mu_task = MuSet \<lparr>at = AtLock, slot = 5\<rparr>\<rparr>
   \<and> mu_result (useMutex ([Caller, Caller] @ [Task, Caller, Task, Caller, Caller, Task, Task]))
       = Some 0"
  using patterns_results
    [of "[Caller, Caller, Task, Task, Caller, Caller]" "[Caller, Task, Task, Caller]"
        "[Caller, Caller, Caller]"
        "[Caller, Caller, Caller, Caller, Caller, Task, Task, Task, Task]"
        "[Caller, Task, Task, Task, Caller]" "[Caller, Caller, Caller]"]
    patterns_results
    [of "[Caller, Caller, Task, Task, Caller, Caller]" "[Caller, Task, Task, Caller]"
        "[Caller, Caller, Caller]"
        "[Caller, Caller, Caller, Caller, Caller, Task, Task, Task, Task]"
        "[Caller, Caller]" "[Task, Caller, Task, Caller, Caller, Task, Task]"]
  by (simp add: mu_run_defs stuck_def set_written_def blockingWithWaitgroups_def wg_defs
        wg_init_def wg_result_def blockingWithChannel_def ch_step_def ch_handoff_def ch_init_def
        ch_result_def returningWithChannel_def rc_step_def rc_handoff_def rc_init_def
        rc_values_def)

text \<open>
  C4. Whatever the schedule and the number \<open>n\<close> of receives the caller goes on to attempt,
  \<^verbatim>\<open>returningWithChannel\<close> does not crash; the caller has the handle as soon as it has been
  picked twice, whatever the spawned function did meanwhile, and each of its two steps inside
  the function is enabled; the handle has yielded nothing or the single value 5; as long as
  it has yielded nothing the send of line 77 is pending, so a receive succeeds; if the caller
  receives at all, a run in which nothing can move any more has yielded exactly 5; and every
  step leaves one step less to do.
\<close>

theorem returningWithChannel_delivers_once:
  "\<exists>s. returningWithChannel n sched = Running s
     \<and> (2 \<le> count_list sched Caller \<longrightarrow> rc_caller s = RcReturned)
     \<and> (rc_caller s = RcGo \<or> rc_caller s = RcReturn \<longrightarrow> (\<exists>t. rc_step Caller s = Proceeds t))
     \<and> (rc_received s = [] \<or> rc_received s = [5])
     \<and> (rc_caller s = RcReturned \<and> rc_received s = [] \<longrightarrow> rc_task s = RcSend)
     \<and> (0 < n \<and> stuck rc_step s \<longrightarrow> rc_received s = [5])
     \<and> (\<forall>g t. rc_step g s = Proceeds t \<longrightarrow> rc_left t < rc_left s)"
proof -
  obtain s where s: "returningWithChannel n sched = Running s" "rc_inv n s"
    using rc_reach by blast
  have "2 \<le> count_list sched Caller \<longrightarrow> rc_caller s = RcReturned"
    using rc_caller_count [of n sched] s(1) by auto
  moreover have "rc_caller s = RcGo \<or> rc_caller s = RcReturn
      \<longrightarrow> (\<exists>t. rc_step Caller s = Proceeds t)"
    by (auto simp: rc_step_def)
  moreover have "rc_received s = [] \<or> rc_received s = [5]"
    using s(2) by (cases "rc_caller s") (auto simp: rc_inv_def)
  moreover have "rc_caller s = RcReturned \<and> rc_received s = [] \<longrightarrow> rc_task s = RcSend"
    using s(2) by (cases "rc_caller s") (auto simp: rc_inv_def)
  moreover have "0 < n \<and> stuck rc_step s \<longrightarrow> rc_received s = [5]"
    using rc_stuck_received [OF s(2)] by blast
  moreover have "\<forall>g t. rc_step g s = Proceeds t \<longrightarrow> rc_left t < rc_left s"
    using rc_left_less [OF s(2)] by blast
  ultimately show ?thesis using s(1) by blast
qed

text \<open>
  One receive, with the spawned function picked before it can send.
\<close>

theorem returningWithChannel_delivers_once_witness:
  "returningWithChannel 1 [Task, Caller, Task, Caller, Task]
     = Running \<lparr>rc_caller = RcReturned, rc_task = RcExited, rc_attempts = 0, rc_received = [5]\<rparr>
   \<and> 2 \<le> count_list [Task, Caller, Task, Caller, Task] Caller
   \<and> stuck rc_step
        \<lparr>rc_caller = RcReturned, rc_task = RcExited, rc_attempts = 0, rc_received = [5]\<rparr>"
  using returningWithChannel_delivers_once [of 1 "[Task, Caller, Task, Caller, Task]"]
  by (simp add: returningWithChannel_def exec_def pick_def rc_step_def rc_handoff_def rc_init_def
        stuck_def)

text \<open>
  C5. \<^verbatim>\<open>blockingWithChannel\<close> and \<^verbatim>\<open>blockingWithWaitgroups\<close> are the same from outside:
  under any two schedules neither crashes, both have returned 5 once nothing can move any
  more, both get there in a bounded number of steps, and the values they return are equal.
\<close>

theorem blockingWithChannel_same_result:
  "\<exists>s u. blockingWithWaitgroups a = Running s \<and> blockingWithChannel b = Running u
     \<and> (stuck wg_step s \<longrightarrow> wg_result (Running s) = Some 5)
     \<and> (stuck ch_step u \<longrightarrow> ch_result (Running u) = Some 5)
     \<and> (\<forall>v w. wg_result (Running s) = Some v \<and> ch_result (Running u) = Some w \<longrightarrow> v = w)
     \<and> (\<forall>g t. wg_step g s = Proceeds t \<longrightarrow> wg_left t < wg_left s)
     \<and> (\<forall>g t. ch_step g u = Proceeds t \<longrightarrow> ch_left t < ch_left u)"
proof -
  obtain s where s: "blockingWithWaitgroups a = Running s" "wg_inv s"
    using wg_reach by blast
  obtain u where u: "blockingWithChannel b = Running u" "ch_inv u"
    using ch_reach by blast
  have "stuck wg_step s \<longrightarrow> wg_result (Running s) = Some 5"
    using wg_stuck_returned [OF s(2)] by (simp add: wg_result_def)
  moreover have "stuck ch_step u \<longrightarrow> ch_result (Running u) = Some 5"
    using ch_stuck_returned [OF u(2)] by (simp add: ch_result_def)
  moreover have "\<forall>v. wg_result (Running s) = Some v \<longrightarrow> v = 5"
    using s(2) by (cases "wg_caller s") (simp_all add: wg_result_def wg_inv_def)
  moreover have "\<forall>w. ch_result (Running u) = Some w \<longrightarrow> w = 5"
    using u(2) by (cases "ch_caller u") (simp_all add: ch_result_def ch_inv_def)
  moreover have "\<forall>g t. wg_step g s = Proceeds t \<longrightarrow> wg_left t < wg_left s"
    using wg_left_less [OF s(2)] by blast
  moreover have "\<forall>g t. ch_step g u = Proceeds t \<longrightarrow> ch_left t < ch_left u"
    using ch_left_less [OF u(2)] by blast
  ultimately show ?thesis using s(1) u(1) by blast
qed

text \<open>
  One complete schedule of each.
\<close>

theorem blockingWithChannel_same_result_witness:
  "wg_result (blockingWithWaitgroups [Caller, Caller, Task, Task, Caller, Caller]) = Some 5
   \<and> ch_result (blockingWithChannel [Caller, Task, Task, Caller]) = Some 5
   \<and> stuck ch_step \<lparr>ch_i = 5, ch_caller = ChReturned 5, ch_task = ChExited\<rparr>
   \<and> blockingWithChannel [Caller, Task, Task, Caller]
       = Running \<lparr>ch_i = 5, ch_caller = ChReturned 5, ch_task = ChExited\<rparr>"
  using blockingWithChannel_same_result
    [of "[Caller, Caller, Task, Task, Caller, Caller]" "[Caller, Task, Task, Caller]"]
  by (simp add: blockingWithWaitgroups_def blockingWithChannel_def exec_def pick_def wg_defs
        wg_init_def wg_result_def ch_step_def ch_handoff_def ch_init_def ch_result_def stuck_def)

text \<open>
  C6. For every container \<open>i\<close> and every integer \<open>v\<close>: \<^verbatim>\<open>set(v)\<close> returns when the lock
  is free, leaving \<open>v\<close> in \<^verbatim>\<open>val\<close> and nothing else changed, and blocks when the lock is
  held; whenever it returns, the \<^verbatim>\<open>get()\<close> that follows returns \<open>v\<close> and leaves the
  container as it is.
\<close>

theorem set_then_get:
  "(\<not> m i \<longrightarrow> set_sn i v = Proceeds (i\<lparr>val := v\<rparr>))
   \<and> (m i \<longrightarrow> set_sn i v = Blocks)
   \<and> (\<forall>j. set_sn i v = Proceeds j \<longrightarrow> get j = Proceeds (v, j))"
proof (cases "m i")
  case True
  then show ?thesis by (simp add: set_locked)
next
  case False
  then show ?thesis by (simp add: set_unlocked get_unlocked)
qed

text \<open>
  Setting 7 in a fresh container.
\<close>

theorem set_then_get_witness:
  "\<not> m new_safeNumber
   \<and> set_sn new_safeNumber 7 = Proceeds \<lparr>val = 7, m = False\<rparr>
   \<and> get \<lparr>val = 7, m = False\<rparr> = Proceeds (7, \<lparr>val = 7, m = False\<rparr>)"
  using set_then_get [of new_safeNumber 7]
  by (simp add: new_safeNumber_def)

text \<open>
  C7. A call of \<^verbatim>\<open>get\<close> or \<^verbatim>\<open>set\<close> on a container whose lock is held does nothing
  before it has the lock. On a container whose lock is free, its first step takes the lock,
  the lock is held after that step and after the body, the last step releases it, and the
  call returns with the lock free: there is one way out of each accessor and the deferred
  \<^verbatim>\<open>Unlock\<close> is on it. In \<^verbatim>\<open>useMutex\<close>, where the two calls run together, the lock is held
  exactly while one of them is between its \<^verbatim>\<open>Lock\<close> and its \<^verbatim>\<open>Unlock\<close>, and no
  \<^verbatim>\<open>Unlock\<close> finds the mutex unlocked.
\<close>

theorem accessors_hold_lock:
  "(m i \<longrightarrow> get_step (enter 0) i = Blocks \<and> set_step (enter v) i = Blocks)
   \<and> (\<not> m i \<longrightarrow>
        (\<exists>c1 i1 c2 i2 c3 i3.
            get_step (enter 0) i = Proceeds (c1, i1) \<and> m i1
          \<and> get_step c1 i1 = Proceeds (c2, i2) \<and> m i2
          \<and> get_step c2 i2 = Proceeds (c3, i3) \<and> \<not> m i3 \<and> at c3 = AtExit
          \<and> get i = Proceeds (slot c3, i3))
      \<and> (\<exists>c1 i1 c2 i2 c3 i3.
            set_step (enter v) i = Proceeds (c1, i1) \<and> m i1
          \<and> set_step c1 i1 = Proceeds (c2, i2) \<and> m i2
          \<and> set_step c2 i2 = Proceeds (c3, i3) \<and> \<not> m i3 \<and> at c3 = AtExit
          \<and> set_sn i v = Proceeds i3))
   \<and> (\<exists>s. useMutex sched = Running s \<and> m (mu_i s) = (get_holds s \<or> set_holds s)
          \<and> (\<forall>g. mu_step g s \<noteq> Crashes))"
proof -
  have locked: "m i \<longrightarrow> get_step (enter 0) i = Blocks \<and> set_step (enter v) i = Blocks"
    using enter_locked by blast
  have getting: "\<exists>c1 i1 c2 i2 c3 i3.
            get_step (enter 0) i = Proceeds (c1, i1) \<and> m i1
          \<and> get_step c1 i1 = Proceeds (c2, i2) \<and> m i2
          \<and> get_step c2 i2 = Proceeds (c3, i3) \<and> \<not> m i3 \<and> at c3 = AtExit
          \<and> get i = Proceeds (slot c3, i3)" if free: "\<not> m i"
    using get_steps [OF free] get_unlocked [OF free] free
    by (intro exI [of _ "\<lparr>at = AtBody, slot = 0\<rparr>"] exI [of _ "i\<lparr>m := True\<rparr>"]
          exI [of _ "\<lparr>at = AtUnlock, slot = val i\<rparr>"] exI [of _ "\<lparr>at = AtExit, slot = val i\<rparr>"]
          exI [of _ i]) simp
  have setting: "\<exists>c1 i1 c2 i2 c3 i3.
            set_step (enter v) i = Proceeds (c1, i1) \<and> m i1
          \<and> set_step c1 i1 = Proceeds (c2, i2) \<and> m i2
          \<and> set_step c2 i2 = Proceeds (c3, i3) \<and> \<not> m i3 \<and> at c3 = AtExit
          \<and> set_sn i v = Proceeds i3" if free: "\<not> m i"
    using set_steps [OF free, of v] set_unlocked [OF free, of v] free
    by (intro exI [of _ "\<lparr>at = AtBody, slot = v\<rparr>"] exI [of _ "i\<lparr>m := True\<rparr>"]
          exI [of _ "\<lparr>at = AtUnlock, slot = v\<rparr>"] exI [of _ "i\<lparr>val := v, m := True\<rparr>"]
          exI [of _ "\<lparr>at = AtExit, slot = v\<rparr>"] exI [of _ "i\<lparr>val := v\<rparr>"]) simp
  obtain s where s: "useMutex sched = Running s" "mu_inv s"
    using mu_reach by blast
  have held: "m (mu_i s) = (get_holds s \<or> set_holds s)"
    using s(2) by (simp add: mu_inv_def)
  have safe: "\<forall>g. mu_step g s \<noteq> Crashes"
    using mu_inv_safe [OF s(2)] by blast
  show ?thesis
    using locked getting setting s(1) held safe by blast
qed

text \<open>
  A fresh container, and \<^verbatim>\<open>useMutex\<close> at the moment the spawned function has the lock.
\<close>

theorem accessors_hold_lock_witness:
  "\<not> m new_safeNumber
   \<and> get_step (enter 0) new_safeNumber
       = Proceeds (\<lparr>at = AtBody, slot = 0\<rparr>, \<lparr>val = 0, m = True\<rparr>)
   \<and> set_step \<lparr>at = AtUnlock, slot = 5\<rparr> \<lparr>val = 5, m = True\<rparr>
       = Proceeds (\<lparr>at = AtExit, slot = 5\<rparr>, \<lparr>val = 5, m = False\<rparr>)
   \<and> set_sn new_safeNumber 5 = Proceeds \<lparr>val = 5, m = False\<rparr>
   \<and> useMutex [Caller, Task] = Running \<lparr>mu_i = \<lparr>val = 0, m = True\<rparr>,
        mu_caller = MuGet (enter 0), mu_task = MuSet \<lparr>at = AtBody, slot = 5\<rparr>\<rparr>"
  using accessors_hold_lock [of new_safeNumber 5 "[Caller, Task]"]
  by (simp add: mu_run_defs set_sn_def)

text \<open>
  C8. In \<^verbatim>\<open>blockingWithWaitgroups\<close> the counter is never negative and \<^verbatim>\<open>Add\<close> and
  \<^verbatim>\<open>Done\<close> never panic. It is 1 from \<^verbatim>\<open>wg.Add(1)\<close> on, when the function is spawned,
  until the spawned function has done its \<^verbatim>\<open>wg.Done()\<close>, and 0 from then on. The caller
  blocks in \<^verbatim>\<open>wg.Wait()\<close> while the counter is not 0, and is past it only when the counter
  is 0 and the spawned function has finished.
\<close>

theorem wg_counter_discipline:
  "\<exists>s. blockingWithWaitgroups sched = Running s
     \<and> 0 \<le> wg_wg s
     \<and> wg_wg s = (if wg_caller s = WgAdd \<or> wg_task s = WgExited then 0 else 1)
     \<and> (wg_caller s = WgGo \<longrightarrow> wg_wg s = 1 \<and> wg_task s = WgUnspawned)
     \<and> (wg_caller s = WgWait \<and> wg_wg s \<noteq> 0 \<longrightarrow> wg_step Caller s = Blocks)
     \<and> (wg_caller s = WgReturn \<or> wg_result (Running s) \<noteq> None
          \<longrightarrow> wg_wg s = 0 \<and> wg_task s = WgExited)
     \<and> (\<forall>g. wg_step g s \<noteq> Crashes)"
proof -
  obtain s where s: "blockingWithWaitgroups sched = Running s" "wg_inv s"
    using wg_reach by blast
  have "0 \<le> wg_wg s"
    using s(2) by (cases "wg_caller s") (auto simp: wg_inv_def)
  moreover have "wg_wg s = (if wg_caller s = WgAdd \<or> wg_task s = WgExited then 0 else 1)"
    using s(2) by (cases "wg_caller s") (auto simp: wg_inv_def)
  moreover have "wg_caller s = WgGo \<longrightarrow> wg_wg s = 1 \<and> wg_task s = WgUnspawned"
    using s(2) by (cases "wg_caller s") (auto simp: wg_inv_def)
  moreover have "wg_caller s = WgWait \<and> wg_wg s \<noteq> 0 \<longrightarrow> wg_step Caller s = Blocks"
    by (simp add: wg_defs)
  moreover have "wg_caller s = WgReturn \<or> wg_result (Running s) \<noteq> None
      \<longrightarrow> wg_wg s = 0 \<and> wg_task s = WgExited"
    using s(2) by (cases "wg_caller s") (auto simp: wg_inv_def wg_result_def)
  moreover have "\<forall>g. wg_step g s \<noteq> Crashes"
    using wg_inv_safe [OF s(2)] by blast
  ultimately show ?thesis using s(1) by blast
qed

text \<open>
  The caller waits, the counter is 1, and the spawned function is about to signal.
\<close>

theorem wg_counter_discipline_witness:
  "blockingWithWaitgroups [Caller, Caller, Task, Caller]
     = Running \<lparr>wg_i = 5, wg_wg = 1, wg_caller = WgWait, wg_task = WgDone\<rparr>
   \<and> wg_step Caller \<lparr>wg_i = 5, wg_wg = 1, wg_caller = WgWait, wg_task = WgDone\<rparr> = Blocks
   \<and> wg_step Task \<lparr>wg_i = 5, wg_wg = 1, wg_caller = WgWait, wg_task = WgDone\<rparr>
       = Proceeds \<lparr>wg_i = 5, wg_wg = 0, wg_caller = WgWait, wg_task = WgExited\<rparr>"
  using wg_counter_discipline [of "[Caller, Caller, Task, Caller]"]
  by (simp add: blockingWithWaitgroups_def exec_def pick_def wg_defs wg_init_def)

text \<open>
  C9. Once the handle of \<^verbatim>\<open>returningWithChannel\<close> has yielded a value, that value is 5,
  the spawned function has finished, neither goroutine has a step, and whatever the
  scheduler picks from then on changes nothing: a caller with a receive still to do
  (\<open>n\<close> at least 2) stays blocked in it and never gets a second value.
\<close>

theorem second_receive_blocks:
  assumes "rc_values (returningWithChannel n sched) \<noteq> []"
  shows "returningWithChannel n (sched @ rest) = returningWithChannel n sched
         \<and> rc_values (returningWithChannel n (sched @ rest)) = [5]
         \<and> (\<exists>s. returningWithChannel n sched = Running s
                \<and> rc_attempts s = n - 1
                \<and> rc_task s = RcExited
                \<and> rc_step Caller s = Blocks
                \<and> rc_step Task s = Blocks)"
proof -
  obtain s where s: "returningWithChannel n sched = Running s" "rc_inv n s"
    using rc_reach by blast
  have got: "rc_received s \<noteq> []"
    using assms s(1) by (simp add: rc_values_def)
  have st: "stuck rc_step s"
    using rc_received_stuck [OF s(2) got] .
  have same: "returningWithChannel n (sched @ rest) = returningWithChannel n sched"
    using s(1) stuck_forever [OF st, of rest]
    by (simp add: returningWithChannel_def exec_append)
  have five: "rc_received s = [5] \<and> rc_attempts s = n - 1 \<and> rc_task s = RcExited"
    using s(2) got by (cases "rc_caller s") (auto simp: rc_inv_def)
  show ?thesis
    using same s(1) five st by (simp add: rc_values_def stuck_def)
qed

text \<open>
  A caller that attempts two receives: the first yields 5, the second never completes.
\<close>

theorem second_receive_blocks_witness:
  "rc_values (returningWithChannel 2 [Caller, Caller, Caller]) \<noteq> []
   \<and> returningWithChannel 2 ([Caller, Caller, Caller] @ [Caller, Task, Caller])
       = returningWithChannel 2 [Caller, Caller, Caller]
   \<and> returningWithChannel 2 [Caller, Caller, Caller]
       = Running \<lparr>rc_caller = RcReturned, rc_task = RcExited, rc_attempts = 1,
                   rc_received = [5]\<rparr>"
proof -
  have h: "rc_values (returningWithChannel 2 [Caller, Caller, Caller]) \<noteq> []"
    by (simp add: returningWithChannel_def exec_def pick_def rc_step_def rc_handoff_def
          rc_init_def rc_values_def)
  show ?thesis
    using h second_receive_blocks [OF h, of "[Caller, Task, Caller]"]
    by (simp add: returningWithChannel_def exec_def pick_def rc_step_def rc_handoff_def
          rc_init_def)
qed

text \<open>
  C10. For every container \<open>i\<close>: \<^verbatim>\<open>get()\<close> returns \<^verbatim>\<open>val\<close> when the lock is free and
  blocks when it is held; whenever it returns it leaves \<^verbatim>\<open>val\<close> as it was, and a second
  \<^verbatim>\<open>get()\<close> returns the same value. On a fresh \<^verbatim>\<open>&safeNumber{}\<close> it returns 0.
\<close>

theorem get_is_pure_read:
  "(\<not> m i \<longrightarrow> get i = Proceeds (val i, i))
   \<and> (m i \<longrightarrow> get i = Blocks)
   \<and> (\<forall>r j. get i = Proceeds (r, j) \<longrightarrow> val j = val i \<and> r = val i \<and> get j = Proceeds (r, j))
   \<and> get new_safeNumber = Proceeds (0, new_safeNumber)"
proof (cases "m i")
  case True
  then show ?thesis by (simp add: get_locked get_unlocked new_safeNumber_def)
next
  case False
  then show ?thesis by (auto simp: get_unlocked new_safeNumber_def)
qed

text \<open>
  A container that holds 9.
\<close>

theorem get_is_pure_read_witness:
  "\<not> m \<lparr>val = 9, m = False\<rparr>
   \<and> get \<lparr>val = 9, m = False\<rparr> = Proceeds (9, \<lparr>val = 9, m = False\<rparr>)
   \<and> get new_safeNumber = Proceeds (0, new_safeNumber)"
  using get_is_pure_read [of "\<lparr>val = 9, m = False\<rparr>"]
  by simp

end
